theory Spec2Isabelle
  imports Main
begin

section \<open>The handler pipeline of package \<open>state\<close>\<close>

text \<open>
  The package (\<^verbatim>\<open>pkg/state/handler.go\<close> and its options file) drives an ordered chain of
  handlers over one shared \<open>State\<close>. \<open>Run\<close> wraps the caller's context with a cancel
  function, stores that function in the state, and walks the chain; a handler ends the
  chain early either by returning an error or by calling \<open>Stop\<close>.

  The embedding is state passing: everything \<open>Run\<close> reads or writes outside its arguments
  is a field of the record \<open>machine\<close>.
\<close>

subsection \<open>Contexts (Go's package \<open>context\<close>, as far as the pipeline uses it)\<close>

text \<open>
  A context is either the never-cancelled root (\<^verbatim>\<open>context.Background()\<close>,
  \<^verbatim>\<open>context.TODO()\<close>) or a cancellable child of another context. Every cancellable
  context owns one done flag; the flags of all contexts created so far are the list
  \<open>flags\<close> of the machine, and a context is named by the position of its flag.
  A context is done when its own flag is set or its parent is done.
\<close>

datatype ctx = Background | Cancellable nat ctx

fun Done :: "bool list \<Rightarrow> ctx \<Rightarrow> bool" where
  "Done fl Background = False"
| "Done fl (Cancellable k parent) = ((k < length fl \<and> fl ! k) \<or> Done fl parent)"

text \<open>
  \<^verbatim>\<open>context.WithCancel(parent)\<close> returns a new child context together with its cancel
  function. The child gets a fresh flag, initially unset; the cancel function is
  represented by the position of that flag.
\<close>

definition WithCancel :: "ctx \<Rightarrow> bool list \<Rightarrow> (ctx \<times> nat) \<times> bool list" where
  "WithCancel parent fl = ((Cancellable (length fl) parent, length fl), fl @ [False])"

text \<open>
  Calling a cancel function sets the flag of its context. The library documents that
  calls after the first do nothing.
\<close>

definition cancel :: "nat \<Rightarrow> bool list \<Rightarrow> bool list" where
  "cancel k fl = fl[k := True]"

subsection \<open>State\<close>

text \<open>
  \<^verbatim>\<open>type State struct { stop context.CancelFunc; client client.Client; log logr.Logger }\<close>

  \<open>stop\<close> is a function value and may be nil: \<open>None\<close> is the nil function, \<open>Some k\<close> the
  cancel function of context \<open>k\<close>. A \<open>logr.Logger\<close> is a struct whose zero value is a
  valid logger: the field holds \<open>None\<close> for the zero value.
\<close>

record ('c, 'l) State =
  stop :: "nat option"
  client :: 'c
  log :: "'l option"

definition Log :: "('c, 'l) State \<Rightarrow> 'l option" where
  "Log s = log s"

definition Client :: "('c, 'l) State \<Rightarrow> 'c" where
  "Client s = client s"

datatype panic = NilFuncCall

text \<open>
  \<^verbatim>\<open>func (s *State) Stop() { s.stop() }\<close>: the call is unconditional, and calling a nil
  function value is a run-time panic in Go.
\<close>

definition Stop :: "('c, 'l) State \<Rightarrow> bool list \<Rightarrow> panic + bool list" where
  "Stop s fl = (case stop s of None \<Rightarrow> Inl NilFuncCall | Some k \<Rightarrow> Inr (cancel k fl))"

subsection \<open>Handlers\<close>

text \<open>
  A handler is arbitrary code behind \<^verbatim>\<open>Handle(ctx, s *State) error\<close>. The fields of
  \<open>State\<close> are unexported and its only method with an effect is \<open>Stop\<close>, so what one
  execution of a handler does to the pipeline is: how many times it calls \<open>s.Stop()\<close>
  and which error it returns (\<open>None\<close> is nil). Everything else it does (to the
  Kubernetes object, through the client) is a change of the external world \<open>'w\<close>, which
  later handlers see.

  The pipeline is single-threaded. A cancellation of the caller's context by another
  goroutine while \<open>Run\<close> is at work is not part of this model: the caller's context is
  done before \<open>Run\<close> starts or not at all.
\<close>

record 'e behaviour =
  stops :: nat
  result :: "'e option"

type_synonym ('c, 'l, 'e, 'w) Handler =
  "ctx \<Rightarrow> ('c, 'l) State \<Rightarrow> 'w \<Rightarrow> 'e behaviour \<times> 'w"

text \<open>
  The trace of a run, kept for the statements only: \<open>Bound k\<close> is the assignment
  \<^verbatim>\<open>r.state.stop = cancel\<close> with the cancel function of context \<open>k\<close>; \<open>Handled i b\<close> is a
  call of \<open>Handle\<close> on the handler at position \<open>i\<close> of the chain, which behaved as \<open>b\<close>.
\<close>

datatype 'e event = is_Bound: Bound nat | Handled nat "'e behaviour"

record ('e, 'w) machine =
  flags :: "bool list"
  events :: "'e event list"
  ext :: 'w

text \<open>\<open>n\<close> calls of \<open>s.Stop()\<close> in a row; the first panic ends them.\<close>

fun Stops :: "nat \<Rightarrow> ('c, 'l) State \<Rightarrow> bool list \<Rightarrow> panic + bool list" where
  "Stops 0 s fl = Inr fl"
| "Stops (Suc n) s fl = (case Stop s fl of Inl p \<Rightarrow> Inl p | Inr fl' \<Rightarrow> Stops n s fl')"

text \<open>
  \<^verbatim>\<open>h.Handle(ctx, &r.state)\<close>: the handler runs on the current world, its calls of
  \<open>Stop\<close> are carried out on the state it was given, and it returns its error.
\<close>

definition Handle ::
  "('c, 'l, 'e, 'w) Handler \<Rightarrow> ctx \<Rightarrow> ('c, 'l) State \<Rightarrow> ('e, 'w) machine
    \<Rightarrow> (panic + 'e option) \<times> ('e, 'w) machine" where
  "Handle h c s m =
     (let (b, w') = h c s (ext m) in
      case Stops (stops b) s (flags m) of
        Inl p \<Rightarrow> (Inl p, m\<lparr>ext := w'\<rparr>)
      | Inr fl \<Rightarrow> (Inr (result b), m\<lparr>flags := fl, ext := w'\<rparr>))"

subsection \<open>Runner\<close>

record ('c, 'l, 'e, 'w) Runner =
  handlers :: "('c, 'l, 'e, 'w) Handler list"
  state :: "('c, 'l) State"

text \<open>
  The loop of \<open>Run\<close>:
  \<^verbatim>\<open>
  for _, h := range r.handlers {
      select {
      case <-ctx.Done():
          break
      default:
          if err := h.Handle(ctx, &r.state); err != nil { return err }
      }
  }
  return nil
  \<close>
  The \<^verbatim>\<open>break\<close> leaves the \<^verbatim>\<open>select\<close>, not the \<^verbatim>\<open>for\<close>: once the context is done the
  loop still visits every remaining handler and skips each of them. \<open>i\<close> is the position
  of the handler at the head of the list.
\<close>

fun loop ::
  "ctx \<Rightarrow> ('c, 'l) State \<Rightarrow> nat \<Rightarrow> ('c, 'l, 'e, 'w) Handler list \<Rightarrow> ('e, 'w) machine
    \<Rightarrow> (panic + 'e option) \<times> ('e, 'w) machine" where
  "loop c s i [] m = (Inr None, m)"
| "loop c s i (h # hs) m =
     (if Done (flags m) c then loop c s (Suc i) hs m
      else
        (let b = fst (h c s (ext m)) in
         case Handle h c s (m\<lparr>events := events m @ [Handled i b]\<rparr>) of
           (Inl p, m') \<Rightarrow> (Inl p, m')
         | (Inr (Some err), m') \<Rightarrow> (Inr (Some err), m')
         | (Inr None, m') \<Rightarrow> loop c s (Suc i) hs m'))"

text \<open>
  \<^verbatim>\<open>
  func (r *Runner) Run(ctx context.Context) error {
      ctx, cancel := context.WithCancel(ctx)
      r.state.stop = cancel
      for ... (the loop above)
  }
  \<close>
  \<open>Run\<close> has a pointer receiver: the runner with the new \<open>stop\<close> is part of the result.
\<close>

definition Run ::
  "ctx \<Rightarrow> ('c, 'l, 'e, 'w) Runner \<Rightarrow> ('e, 'w) machine
    \<Rightarrow> (panic + 'e option) \<times> ('c, 'l, 'e, 'w) Runner \<times> ('e, 'w) machine" where
  "Run ctx0 r m =
     (let ((c, k), fl) = WithCancel ctx0 (flags m);
          r' = r\<lparr>state := (state r)\<lparr>stop := Some k\<rparr>\<rparr>;
          m' = m\<lparr>flags := fl, events := events m @ [Bound k]\<rparr>;
          (res, m'') = loop c (state r') 0 (handlers r') m'
      in (res, r', m''))"

subsection \<open>Construction\<close>

text \<open>\<^verbatim>\<open>type Option func(*State)\<close> and \<^verbatim>\<open>WithLogger\<close>, which assigns \<open>s.log\<close>.\<close>

type_synonym ('c, 'l) Option = "('c, 'l) State \<Rightarrow> ('c, 'l) State"

definition WithLogger :: "'l option \<Rightarrow> ('c, 'l) Option" where
  "WithLogger lg = (\<lambda>s. s\<lparr>log := lg\<rparr>)"

text \<open>\<^verbatim>\<open>for _, opt := range opts { opt(&s) }\<close>\<close>

fun apply_opts :: "('c, 'l) Option list \<Rightarrow> ('c, 'l) State \<Rightarrow> ('c, 'l) State" where
  "apply_opts [] s = s"
| "apply_opts (opt # opts) s = apply_opts opts (opt s)"

text \<open>
  \<^verbatim>\<open>s := State{client: client}\<close> leaves \<open>stop\<close> nil and \<open>log\<close> the zero logger; the new
  runner has no handlers.
\<close>

definition New :: "'c \<Rightarrow> ('c, 'l) Option list \<Rightarrow> ('c, 'l, 'e, 'w) Runner" where
  "New cl opts =
     \<lparr>handlers = [], state = apply_opts opts \<lparr>stop = None, client = cl, log = None\<rparr>\<rparr>"

text \<open>\<^verbatim>\<open>r.handlers = append(r.handlers, handler...)\<close>\<close>

definition AddHandlers ::
  "('c, 'l, 'e, 'w) Runner \<Rightarrow> ('c, 'l, 'e, 'w) Handler list \<Rightarrow> ('c, 'l, 'e, 'w) Runner" where
  "AddHandlers r hs = r\<lparr>handlers := handlers r @ hs\<rparr>"

subsection \<open>Notions used in the statements\<close>

text \<open>The events that one call of \<open>Run\<close> appends to the trace.\<close>

definition trace ::
  "ctx \<Rightarrow> ('c, 'l, 'e, 'w) Runner \<Rightarrow> ('e, 'w) machine \<Rightarrow> 'e event list" where
  "trace ctx0 r m = drop (length (events m)) (events (snd (snd (Run ctx0 r m))))"

text \<open>The positions of the handlers that were called, in the order of the calls.\<close>

fun handled :: "'e event list \<Rightarrow> nat list" where
  "handled [] = []"
| "handled (Bound k # es) = handled es"
| "handled (Handled i b # es) = i # handled es"

text \<open>
  What a chain does when nothing outside it cancels the context: each handler is called
  on the world its predecessor left, and the chain ends with the first handler that
  returns an error or calls \<open>Stop\<close>. The list pairs the behaviour of every handler called
  with the world after it. The loop is proved to compute exactly this.
\<close>

fun executed ::
  "ctx \<Rightarrow> ('c, 'l) State \<Rightarrow> ('c, 'l, 'e, 'w) Handler list \<Rightarrow> 'w
    \<Rightarrow> ('e behaviour \<times> 'w) list" where
  "executed c s [] w = []"
| "executed c s (h # hs) w =
     (let (b, w') = h c s w in
      (b, w') # (if stops b = 0 \<and> result b = None then executed c s hs w' else []))"

text \<open>
  The handlers that one call of \<open>Run\<close> calls: none when the caller's context is already
  done, and otherwise those of \<open>executed\<close> for the context and the state that \<open>Run\<close> hands
  to the handlers.
\<close>

definition steps ::
  "ctx \<Rightarrow> ('c, 'l, 'e, 'w) Runner \<Rightarrow> ('e, 'w) machine \<Rightarrow> ('e behaviour \<times> 'w) list" where
  "steps ctx0 r m =
     (if Done (flags m) ctx0 then []
      else executed (Cancellable (length (flags m)) ctx0)
             ((state r)\<lparr>stop := Some (length (flags m))\<rparr>) (handlers r) (ext m))"

text \<open>The handler that does what \<open>h\<close> does, but calls \<open>Stop\<close> at most once.\<close>

definition once :: "('c, 'l, 'e, 'w) Handler \<Rightarrow> ('c, 'l, 'e, 'w) Handler" where
  "once h = (\<lambda>c s w. let (b, w') = h c s w in (b\<lparr>stops := min 1 (stops b)\<rparr>, w'))"

subsection \<open>Concrete inputs\<close>

text \<open>A machine on which nothing has happened yet, in the world \<open>w\<close>.\<close>

definition start :: "'w \<Rightarrow> ('e, 'w) machine" where
  "start w = \<lparr>flags = [], events = [], ext = w\<rparr>"

text \<open>
  \<open>exampleFunc\<close> is the handler of the package's test: it prints its text and returns
  nil; the world is the list of printed lines. The other three are the steps of the
  specification's scenarios: one that calls \<open>Stop\<close> and returns nil, one that returns an
  error, and one that does both.
\<close>

definition exampleFunc :: "string \<Rightarrow> ('c, 'l, 'e, string list) Handler" where
  "exampleFunc text = (\<lambda>c s w. (\<lparr>stops = 0, result = None\<rparr>, w @ [text]))"

definition stopping :: "('c, 'l, 'e, 'w) Handler" where
  "stopping = (\<lambda>c s w. (\<lparr>stops = 1, result = None\<rparr>, w))"



text \<open>
  A context that its owner has already cancelled, as after
  \<^verbatim>\<open>ctx, cancel := context.WithCancel(context.Background()); cancel()\<close>,
  and the machine in which that has happened.
\<close>

definition cancelled_ctx :: ctx where
  "cancelled_ctx = fst (fst (WithCancel Background []))"

definition cancelled_start :: "'w \<Rightarrow> ('e, 'w) machine" where
  "cancelled_start w =
     \<lparr>flags = cancel (snd (fst (WithCancel Background []))) (snd (WithCancel Background [])),
      events = [], ext = w\<rparr>"



definition scenarioC :: "(unit, nat, string, string list) Runner" where
  "scenarioC =
     AddHandlers (New () [])
       [exampleFunc ''first'', exampleFunc ''second'', exampleFunc ''third'']"


text \<open>
  A step that calls \<open>Stop\<close> three times before it returns nil, and a runner with it.
\<close>

definition stopping_thrice :: "('c, 'l, 'e, 'w) Handler" where
  "stopping_thrice = (\<lambda>c s w. (\<lparr>stops = 3, result = None\<rparr>, w))"

definition scenarioE :: "(unit, nat, string, string list) Runner" where
  "scenarioE =
     AddHandlers (New () []) [exampleFunc ''first'', stopping_thrice, exampleFunc ''third'']"

section \<open>The loop computes \<open>executed\<close>\<close>

lemma Stops_bound: "stop s = Some k \<Longrightarrow> Stops n s fl = Inr (if n = 0 then fl else cancel k fl)"
proof (induction n arbitrary: fl)
  case 0 show ?case by simp
next
  case (Suc n)
  then show ?case by (simp add: Stop_def cancel_def)
qed

lemma loop_done: "Done (flags m) c \<Longrightarrow> loop c s i hs m = (Inr None, m)"
  by (induction hs arbitrary: i) simp_all

lemma loop_executed:
  assumes "stop s = Some k" "k < length (flags m)" "\<not> Done (flags m) (Cancellable k p)"
  shows "loop (Cancellable k p) s i hs m =
    (let xs = executed (Cancellable k p) s hs (ext m) in
     (Inr (if xs = [] then None else result (fst (last xs))),
      m\<lparr>flags := (if xs \<noteq> [] \<and> 0 < stops (fst (last xs)) then cancel k (flags m) else flags m),
        events := events m @ map (\<lambda>(j, x). Handled j (fst x)) (enumerate i xs),
        ext := (if xs = [] then ext m else snd (last xs))\<rparr>))"
  using assms
proof (induction hs arbitrary: i m)
  case Nil
  show ?case by simp
next
  case (Cons h hs)
  obtain b w' where hb: "h (Cancellable k p) s (ext m) = (b, w')" by (cases "h (Cancellable k p) s (ext m)")
  show ?case
  proof (cases "result b")
    case (Some err)
    with Cons.prems hb show ?thesis
      by (simp add: Handle_def Stops_bound)
  next
    case None
    show ?thesis
    proof (cases "stops b = 0")
      case True
      let ?m1 = "m\<lparr>events := events m @ [Handled i b], ext := w'\<rparr>"
      have step: "loop (Cancellable k p) s i (h # hs) m = loop (Cancellable k p) s (Suc i) hs ?m1"
        using Cons.prems hb None True by (simp add: Handle_def Stops_bound)
      have ih: "loop (Cancellable k p) s (Suc i) hs ?m1 = 
         (let xs = executed (Cancellable k p) s hs (ext ?m1) in
     (Inr (if xs = [] then None else result (fst (last xs))),
      ?m1\<lparr>flags := (if xs \<noteq> [] \<and> 0 < stops (fst (last xs)) then cancel k (flags ?m1) else flags ?m1),
        events := events ?m1 @ map (\<lambda>(j, x). Handled j (fst x)) (enumerate (Suc i) xs),
        ext := (if xs = [] then ext ?m1 else snd (last xs))\<rparr>))"
        using Cons.prems by (intro Cons.IH) simp_all
      show ?thesis unfolding step ih using hb None True
        by (simp add: Let_def)
    next
      case False
      let ?m1 = "m\<lparr>events := events m @ [Handled i b], flags := cancel k (flags m), ext := w'\<rparr>"
      have step: "loop (Cancellable k p) s i (h # hs) m = loop (Cancellable k p) s (Suc i) hs ?m1"
        using Cons.prems hb None False by (simp add: Handle_def Stops_bound)
      have "Done (flags ?m1) (Cancellable k p)"
        using Cons.prems(2) by (simp add: cancel_def)
      then have "loop (Cancellable k p) s (Suc i) hs ?m1 = (Inr None, ?m1)"
        by (rule loop_done)
      with step hb None False show ?thesis
        by simp
    qed
  qed
qed

lemma Done_fresh: "Done (fl @ [False]) c = Done fl c"
  by (induction c) (auto simp: nth_append)

lemma Run_cancelled:
  assumes "Done (flags m) ctx0"
  shows "Run ctx0 r m =
    (Inr None, r\<lparr>state := (state r)\<lparr>stop := Some (length (flags m))\<rparr>\<rparr>,
     m\<lparr>flags := flags m @ [False], events := events m @ [Bound (length (flags m))]\<rparr>)"
proof -
  let ?m1 = "m\<lparr>flags := flags m @ [False], events := events m @ [Bound (length (flags m))]\<rparr>"
  have "Done (flags ?m1) (Cancellable (length (flags m)) ctx0)"
    using assms by (simp add: Done_fresh)
  then have "loop (Cancellable (length (flags m)) ctx0)
      ((state r)\<lparr>stop := Some (length (flags m))\<rparr>) 0 (handlers r) ?m1 = (Inr None, ?m1)"
    by (rule loop_done)
  then show ?thesis
    by (simp add: Run_def WithCancel_def)
qed

lemma Run_live:
  assumes "\<not> Done (flags m) ctx0"
  shows "Run ctx0 r m =
    (let k = length (flags m);
         s = (state r)\<lparr>stop := Some k\<rparr>;
         xs = executed (Cancellable k ctx0) s (handlers r) (ext m)
     in (Inr (if xs = [] then None else result (fst (last xs))),
         r\<lparr>state := s\<rparr>,
         m\<lparr>flags := flags m @ [xs \<noteq> [] \<and> 0 < stops (fst (last xs))],
           events := events m @ Bound k # map (\<lambda>(j, x). Handled j (fst x)) (enumerate 0 xs),
           ext := (if xs = [] then ext m else snd (last xs))\<rparr>))"
proof -
  let ?k = "length (flags m)"
  let ?s = "(state r)\<lparr>stop := Some ?k\<rparr>"
  let ?m1 = "m\<lparr>flags := flags m @ [False], events := events m @ [Bound ?k]\<rparr>"
  have "\<not> Done (flags ?m1) (Cancellable ?k ctx0)"
    using assms by (simp add: Done_fresh)
  then have "loop (Cancellable ?k ctx0) ?s 0 (handlers r) ?m1 = 
    (let xs = executed (Cancellable ?k ctx0) ?s (handlers r) (ext ?m1) in
     (Inr (if xs = [] then None else result (fst (last xs))),
      ?m1\<lparr>flags := (if xs \<noteq> [] \<and> 0 < stops (fst (last xs)) then cancel ?k (flags ?m1) else flags ?m1),
        events := events ?m1 @ map (\<lambda>(j, x). Handled j (fst x)) (enumerate 0 xs),
        ext := (if xs = [] then ext ?m1 else snd (last xs))\<rparr>))"
    by (intro loop_executed) simp_all
  then show ?thesis
    by (simp add: Run_def WithCancel_def Let_def cancel_def)
qed

lemma executed_length: "length (executed c s hs w) \<le> length hs"
  by (induction hs arbitrary: w) (auto simp: Let_def split: prod.splits)


lemma executed_all_quiet:
  "(\<And>i. i < length (executed c s hs w) \<Longrightarrow>
      stops (fst (executed c s hs w ! i)) = 0 \<and> result (fst (executed c s hs w ! i)) = None)
   \<Longrightarrow> length (executed c s hs w) = length hs"
proof (induction hs arbitrary: w)
  case Nil then show ?case by simp
next
  case (Cons h hs)
  obtain b w' where hb: "h c s w = (b, w')" by (cases "h c s w")
  have q: "stops b = 0 \<and> result b = None"
    using Cons.prems[of 0] hb by simp
  have "length (executed c s hs w') = length hs"
  proof (rule Cons.IH)
    fix i assume "i < length (executed c s hs w')"
    then show "stops (fst (executed c s hs w' ! i)) = 0 \<and> result (fst (executed c s hs w' ! i)) = None"
      using Cons.prems[of "Suc i"] hb q by simp
  qed
  with hb q show ?case by simp
qed

lemma handled_enumerate:
  "handled (map (\<lambda>(j, x). Handled j (fst x)) (enumerate n xs)) = [n..<n + length xs]"
proof (induction xs arbitrary: n)
  case Nil
  show ?case by simp
next
  case (Cons x xs)
  have "[n..<Suc (n + length xs)] = n # [Suc n..<Suc (n + length xs)]"
    by (rule upt_conv_Cons) simp
  with Cons.IH[of "Suc n"] show ?case by (simp del: upt_Suc)
qed

lemma Handled_in_enumerate:
  "Handled i b \<in> set (map (\<lambda>(j, x). Handled j (fst x)) (enumerate 0 xs))
    \<longleftrightarrow> i < length xs \<and> fst (xs ! i) = b"
proof
  assume "Handled i b \<in> set (map (\<lambda>(j, x). Handled j (fst x)) (enumerate 0 xs))"
  then obtain j x where "(j, x) \<in> set (enumerate 0 xs)" "Handled i b = Handled j (fst x)"
    by auto
  then show "i < length xs \<and> fst (xs ! i) = b"
    by (auto simp: in_set_enumerate_eq)
next
  assume a: "i < length xs \<and> fst (xs ! i) = b"
  then have "(i, xs ! i) \<in> set (enumerate 0 xs)"
    by (simp add: in_set_enumerate_eq)
  then have "(\<lambda>(j, x). Handled j (fst x)) (i, xs ! i) \<in> set (map (\<lambda>(j, x). Handled j (fst x)) (enumerate 0 xs))"
    unfolding set_map by (rule imageI)
  with a show "Handled i b \<in> set (map (\<lambda>(j, x). Handled j (fst x)) (enumerate 0 xs))"
    by simp
qed

section \<open>What one call of \<open>Run\<close> returns and leaves behind\<close>

lemma Run_result:
  "fst (Run ctx0 r m) =
     Inr (if steps ctx0 r m = [] then None else result (fst (last (steps ctx0 r m))))"
  by (cases "Done (flags m) ctx0") (simp_all add: Run_cancelled Run_live steps_def Let_def)

lemma Run_runner:
  "fst (snd (Run ctx0 r m)) = r\<lparr>state := (state r)\<lparr>stop := Some (length (flags m))\<rparr>\<rparr>"
  by (cases "Done (flags m) ctx0") (simp_all add: Run_cancelled Run_live Let_def)

lemma Run_flags:
  "flags (snd (snd (Run ctx0 r m))) =
     flags m @ [steps ctx0 r m \<noteq> [] \<and> 0 < stops (fst (last (steps ctx0 r m)))]"
  by (cases "Done (flags m) ctx0") (simp_all add: Run_cancelled Run_live steps_def Let_def)

lemma Run_ext:
  "ext (snd (snd (Run ctx0 r m))) =
     (if steps ctx0 r m = [] then ext m else snd (last (steps ctx0 r m)))"
  by (cases "Done (flags m) ctx0") (simp_all add: Run_cancelled Run_live steps_def Let_def)

lemma Run_trace:
  "trace ctx0 r m =
     Bound (length (flags m)) # map (\<lambda>(j, x). Handled j (fst x)) (enumerate 0 (steps ctx0 r m))"
  by (cases "Done (flags m) ctx0") (simp_all add: trace_def Run_cancelled Run_live steps_def Let_def)

lemma handled_trace: "handled (trace ctx0 r m) = [0..<length (steps ctx0 r m)]"
  using handled_enumerate[of 0 "steps ctx0 r m"] by (simp add: Run_trace)

lemma Handled_in_trace:
  "Handled i b \<in> set (trace ctx0 r m) \<longleftrightarrow> i < length (steps ctx0 r m) \<and> fst (steps ctx0 r m ! i) = b"
  using Handled_in_enumerate[of i b "steps ctx0 r m"] by (simp add: Run_trace)

lemma steps_length: "length (steps ctx0 r m) \<le> length (handlers r)"
  by (simp add: steps_def executed_length)



lemma steps_all_quiet:
  assumes "\<not> Done (flags m) ctx0"
    and "\<And>i. i < length (steps ctx0 r m) \<Longrightarrow>
      stops (fst (steps ctx0 r m ! i)) = 0 \<and> result (fst (steps ctx0 r m ! i)) = None"
  shows "length (steps ctx0 r m) = length (handlers r)"
proof -
  have e: "steps ctx0 r m = executed (Cancellable (length (flags m)) ctx0)
             ((state r)\<lparr>stop := Some (length (flags m))\<rparr>) (handlers r) (ext m)"
    using assms(1) by (simp add: steps_def)
  show ?thesis
    using assms(2) unfolding e by (rule executed_all_quiet)
qed


text \<open>
  Progress: on a context that is not done, the handler at position \<open>i\<close> is called as
  soon as no handler called before it returns an error or calls \<open>Stop\<close>.
\<close>

lemma handler_is_called:
  assumes live: "\<not> Done (flags m) ctx0" and i: "i < length (handlers r)"
    and quiet: "\<And>j b. j < i \<Longrightarrow> Handled j b \<in> set (trace ctx0 r m)
                  \<Longrightarrow> stops b = 0 \<and> result b = None"
  shows "\<exists>b. Handled i b \<in> set (trace ctx0 r m)"
proof (rule ccontr)
  assume "\<not> (\<exists>b. Handled i b \<in> set (trace ctx0 r m))"
  then have short: "length (steps ctx0 r m) \<le> i"
    by (simp add: Handled_in_trace not_less)
  have "stops (fst (steps ctx0 r m ! j)) = 0 \<and> result (fst (steps ctx0 r m ! j)) = None"
    if "j < length (steps ctx0 r m)" for j
  proof (rule quiet)
    show "j < i" using that short by simp
    show "Handled j (fst (steps ctx0 r m ! j)) \<in> set (trace ctx0 r m)"
      using that by (simp add: Handled_in_trace)
  qed
  with live have "length (steps ctx0 r m) = length (handlers r)"
    by (rule steps_all_quiet)
  with short i show False by simp
qed

section \<open>Calling \<open>Stop\<close> more than once\<close>

lemma executed_once:
  "executed c s (map once hs) w =
     map (\<lambda>(b, w'). (b\<lparr>stops := min 1 (stops b)\<rparr>, w')) (executed c s hs w)"
proof (induction hs arbitrary: w)
  case Nil
  show ?case by simp
next
  case (Cons h hs)
  obtain b w' where hb: "h c s w = (b, w')" by (cases "h c s w")
  show ?case
  proof (cases "stops b = 0 \<and> result b = None")
    case True
    with hb Cons.IH[of w'] show ?thesis by (simp add: once_def)
  next
    case False
    with hb show ?thesis by (auto simp: once_def)
  qed
qed

lemma steps_once:
  "steps ctx0 (r\<lparr>handlers := map once (handlers r)\<rparr>) m =
     map (\<lambda>(b, w'). (b\<lparr>stops := min 1 (stops b)\<rparr>, w')) (steps ctx0 r m)"
  by (simp add: steps_def executed_once)

lemma Run_never_panics: "\<exists>e. fst (Run ctx0 r m) = Inr e"
  by (simp add: Run_result)

section \<open>Lemmas about construction and the trace\<close>

lemma AddHandlers_foldl:
  "foldl AddHandlers r hss = r\<lparr>handlers := handlers r @ concat hss\<rparr>"
  by (induction hss arbitrary: r) (simp_all add: AddHandlers_def)


lemma apply_opts_append: "apply_opts (xs @ ys) s = apply_opts ys (apply_opts xs s)"
  by (induction xs arbitrary: s) simp_all

lemma stop_apply_opts:
  "\<forall>opt \<in> set opts. \<forall>s. stop (opt s) = stop s \<Longrightarrow> stop (apply_opts opts s) = stop s"
  by (induction opts arbitrary: s) simp_all

section \<open>Cooperative stop\<close>



section \<open>Error abort\<close>



section \<open>A chain that neither fails nor stops\<close>




section \<open>\<open>Stop\<close> is idempotent\<close>

text \<open>
  C4. During a run the state that the handlers are given has the cancel function of the
  run bound, so a call of \<open>Stop\<close> never panics and returns no error; any number of
  calls in a row, one or more, leaves the same flags as a single call. At the level of the
  pipeline: \<open>Run\<close> never panics, whatever the handlers do with \<open>Stop\<close>, and the run of
  a chain equals the run of the chain in which every handler calls \<open>Stop\<close> at most once
  (\<open>once\<close>) in what it returns, in the handlers called, in the cancellation flags and in
  the world it leaves.
\<close>

theorem Stop_idempotent:
  "Stop (state (fst (snd (Run ctx0 r m)))) fl = Inr (cancel (length (flags m)) fl)
   \<and> Stops (Suc n) (state (fst (snd (Run ctx0 r m)))) fl
       = Stop (state (fst (snd (Run ctx0 r m)))) fl
   \<and> (\<exists>e. fst (Run ctx0 r m) = Inr e)
   \<and> fst (Run ctx0 (r\<lparr>handlers := map once (handlers r)\<rparr>) m) = fst (Run ctx0 r m)
   \<and> handled (trace ctx0 (r\<lparr>handlers := map once (handlers r)\<rparr>) m)
       = handled (trace ctx0 r m)
   \<and> flags (snd (snd (Run ctx0 (r\<lparr>handlers := map once (handlers r)\<rparr>) m)))
       = flags (snd (snd (Run ctx0 r m)))
   \<and> ext (snd (snd (Run ctx0 (r\<lparr>handlers := map once (handlers r)\<rparr>) m)))
       = ext (snd (snd (Run ctx0 r m)))"
proof -
  let ?s = "state (fst (snd (Run ctx0 r m)))"
  let ?r1 = "r\<lparr>handlers := map once (handlers r)\<rparr>"
  have b: "stop ?s = Some (length (flags m))"
    by (simp add: Run_runner)
  have one: "Stop ?s fl = Inr (cancel (length (flags m)) fl)"
    using b by (simp add: Stop_def)
  have many: "Stops (Suc n) ?s fl = Stop ?s fl"
    using Stops_bound[OF b, of "Suc n" fl] one by simp
  have res: "fst (Run ctx0 ?r1 m) = fst (Run ctx0 r m)"
    by (cases "steps ctx0 r m = []") (simp_all add: Run_result steps_once last_map split_def)
  have han: "handled (trace ctx0 ?r1 m) = handled (trace ctx0 r m)"
    by (simp add: handled_trace steps_once)
  have fla: "flags (snd (snd (Run ctx0 ?r1 m))) = flags (snd (snd (Run ctx0 r m)))"
    by (cases "steps ctx0 r m = []") (simp_all add: Run_flags steps_once last_map split_def)
  have wor: "ext (snd (snd (Run ctx0 ?r1 m))) = ext (snd (snd (Run ctx0 r m)))"
    by (cases "steps ctx0 r m = []") (simp_all add: Run_ext steps_once last_map split_def)
  from one many Run_never_panics[of ctx0 r m] res han fla wor show ?thesis
    by blast
qed

theorem Stop_idempotent_witness:
  "fst (Run Background scenarioE (start [])) = Inr None
   \<and> fst (Run Background (scenarioE\<lparr>handlers := map once (handlers scenarioE)\<rparr>) (start []))
       = fst (Run Background scenarioE (start []))
   \<and> handled (trace Background scenarioE (start [])) = [0, 1]
   \<and> flags (snd (snd (Run Background scenarioE (start [])))) = [True]"
proof -
  have a: "fst (Run Background scenarioE (start [])) = Inr None"
    by (simp add: scenarioE_def Run_def WithCancel_def AddHandlers_def New_def
        start_def Handle_def exampleFunc_def stopping_thrice_def Stop_def cancel_def
        numeral_3_eq_3)
  have t: "handled (trace Background scenarioE (start [])) = [0, 1]"
    by (simp add: trace_def scenarioE_def Run_def WithCancel_def AddHandlers_def New_def
        start_def Handle_def exampleFunc_def stopping_thrice_def Stop_def cancel_def
        numeral_3_eq_3)
  have f: "flags (snd (snd (Run Background scenarioE (start [])))) = [True]"
    by (simp add: scenarioE_def Run_def WithCancel_def AddHandlers_def New_def
        start_def Handle_def exampleFunc_def stopping_thrice_def Stop_def cancel_def
        numeral_3_eq_3)
  from Stop_idempotent[of Background scenarioE "start []"] a t f show ?thesis
    by simp
qed

section \<open>Adding handlers\<close>

text \<open>
  C5. After any sequence of \<open>AddHandlers\<close> calls the chain of the runner is its former
  chain followed by the argument lists in the order of the calls, each list in its own
  order; the state is untouched. For a new runner the chain is the concatenation of the
  argument lists.
\<close>

theorem AddHandlers_cumulative:
  "handlers (foldl AddHandlers r hss) = handlers r @ concat hss
   \<and> state (foldl AddHandlers r hss) = state r
   \<and> handlers (foldl AddHandlers (New cl opts) hss) = concat hss
   \<and> handlers (AddHandlers (AddHandlers r hs1) hs2) = handlers r @ hs1 @ hs2"
  by (simp add: AddHandlers_foldl) (simp add: New_def AddHandlers_def)

section \<open>The binding of the cancel function\<close>


section \<open>Options\<close>

text \<open>
  C7. \<open>New\<close> starts from the state with the given client, a nil \<open>stop\<close> and the zero
  logger, and applies the options in argument order: the last option is applied to the
  state that the options before it produced. So of two \<open>WithLogger\<close> options the second
  decides the logger, and more generally the last of a run of \<open>WithLogger\<close> options does,
  whatever options came before.
\<close>

theorem New_applies_options_in_order:
  "state (New cl [] :: ('c, 'l, 'e, 'w) Runner) = \<lparr>stop = None, client = cl, log = None\<rparr>
   \<and> state (New cl (opts @ [opt]) :: ('c, 'l, 'e, 'w) Runner)
       = opt (state (New cl opts :: ('c, 'l, 'e, 'w) Runner))
   \<and> log (state (New cl (opts @ [WithLogger a, WithLogger b]) :: ('c, 'l, 'e, 'w) Runner)) = b
   \<and> log (state (New cl (opts @ map WithLogger (lgs @ [lg])) :: ('c, 'l, 'e, 'w) Runner)) = lg"
  by (simp add: New_def apply_opts_append WithLogger_def)

section \<open>\<open>Stop\<close> before any \<open>Run\<close>\<close>

text \<open>
  C8. \<open>New\<close> leaves \<open>stop\<close> nil when no option assigns it (\<open>WithLogger\<close>, the only option
  of the package, assigns \<open>log\<close> alone), and \<open>AddHandlers\<close> does not touch the state. A call
  of \<open>Stop\<close> on that state, before any \<open>Run\<close>, calls the nil function and panics.
\<close>

theorem Stop_before_Run_panics:
  assumes "\<forall>opt \<in> set opts. \<forall>s. stop (opt s) = stop s"
  shows "stop (state (New cl opts :: ('c, 'l, 'e, 'w) Runner)) = None
       \<and> Stop (state (New cl opts :: ('c, 'l, 'e, 'w) Runner)) fl = Inl NilFuncCall
       \<and> Stop (state (foldl AddHandlers (New cl opts :: ('c, 'l, 'e, 'w) Runner) hss)) fl
           = Inl NilFuncCall"
proof -
  have "stop (apply_opts opts \<lparr>stop = None, client = cl, log = None\<rparr>) = None"
    using stop_apply_opts[OF assms] by simp
  then show ?thesis
    by (simp add: New_def Stop_def AddHandlers_foldl)
qed

theorem Stop_before_Run_panics_witness:
  "stop (state (New () [WithLogger (Some (7::nat)), WithLogger None]
        :: (unit, nat, string, string list) Runner)) = None
   \<and> Stop (state (New () [WithLogger (Some (7::nat)), WithLogger None]
        :: (unit, nat, string, string list) Runner)) [] = Inl NilFuncCall"
proof -
  have h: "\<forall>opt \<in> set [WithLogger (Some (7::nat)), WithLogger None].
      \<forall>s :: (unit, nat) State. stop (opt s) = stop s"
    by (simp add: WithLogger_def)
  from Stop_before_Run_panics[OF h, where ?'e = string and ?'w = "string list", of "()" "[]"]
  show ?thesis
    by simp
qed

section \<open>A context that is already cancelled\<close>

text \<open>
  C9. If the context passed to \<open>Run\<close> is already done, \<open>Run\<close> returns nil, calls no
  handler and leaves the world as it was. The caller sees what it sees when a handler put
  in front of the chain requests a stop on a live context: the same return value, no
  handler of the chain called, the world unchanged.
\<close>

theorem cancelled_context_skips_every_handler:
  assumes "Done (flags m) ctx0"
  shows "fst (Run ctx0 r m) = Inr None
       \<and> handled (trace ctx0 r m) = []
       \<and> ext (snd (snd (Run ctx0 r m))) = ext m
       \<and> fst (Run Background (r\<lparr>handlers := stopping # handlers r\<rparr>) m) = fst (Run ctx0 r m)
       \<and> handled (trace Background (r\<lparr>handlers := stopping # handlers r\<rparr>) m) = [0]
       \<and> ext (snd (snd (Run Background (r\<lparr>handlers := stopping # handlers r\<rparr>) m))) = ext m"
proof -
  have s0: "steps ctx0 r m = []"
    using assms by (simp add: steps_def)
  have s1: "steps Background (r\<lparr>handlers := stopping # handlers r\<rparr>) m
              = [(\<lparr>stops = 1, result = None\<rparr>, ext m)]"
    by (simp add: steps_def stopping_def)
  show ?thesis
    by (simp add: Run_result Run_ext handled_trace s0 s1)
qed

theorem cancelled_context_skips_every_handler_witness:
  "Done (flags (cancelled_start [] :: (string, string list) machine)) cancelled_ctx
   \<and> fst (Run cancelled_ctx scenarioC (cancelled_start [])) = Inr None
   \<and> handled (trace cancelled_ctx scenarioC (cancelled_start [])) = []
   \<and> ext (snd (snd (Run cancelled_ctx scenarioC (cancelled_start [])))) = []"
proof -
  have d: "Done (flags (cancelled_start [] :: (string, string list) machine)) cancelled_ctx"
    by (simp add: cancelled_start_def cancelled_ctx_def WithCancel_def cancel_def)
  have e: "ext (cancelled_start [] :: (string, string list) machine) = []"
    by (simp add: cancelled_start_def)
  from cancelled_context_skips_every_handler[OF d, of scenarioC] d e show ?thesis
    by simp
qed

section \<open>Error and stop together\<close>



end
